theory Spec2Isabelle
  imports Complex_Main "HOL-Library.Sublist" "HOL-Library.Multiset"
begin

section \<open>Calendar utilities\<close>

text \<open>
  Exceptions of the source as values. \<open>ValueError\<close> and \<open>OverflowError\<close> are what the
  constructor \<^verbatim>\<open>dt.date(y, m, day)\<close> raises for a date outside the calendar and for an
  argument that does not fit a C int; \<open>DatabaseError\<close> is what \<^verbatim>\<open>pd.read_sql_query\<close> raises
  when the database engine refuses the query.
\<close>

datatype error = ValueError | OverflowError | DatabaseError

text \<open>A \<^verbatim>\<open>dt.date\<close>: three integer attributes; dates compare as (year, month, day).\<close>

record date =
  year :: int
  month :: int
  day :: int

definition date_le :: "date \<Rightarrow> date \<Rightarrow> bool" where
  "date_le a b \<longleftrightarrow>
     year a < year b \<or> (year a = year b \<and> (month a < month b \<or> (month a = month b \<and> day a \<le> day b)))"

definition date_lt :: "date \<Rightarrow> date \<Rightarrow> bool" where
  "date_lt a b \<longleftrightarrow>
     year a < year b \<or> (year a = year b \<and> (month a < month b \<or> (month a = month b \<and> day a < day b)))"

text \<open>The proleptic Gregorian calendar of the date type: leap years and month lengths.\<close>

definition is_leap :: "int \<Rightarrow> bool" where
  "is_leap y \<longleftrightarrow> y mod 4 = 0 \<and> (y mod 100 \<noteq> 0 \<or> y mod 400 = 0)"

definition days_in_month :: "int \<Rightarrow> int \<Rightarrow> int" where
  "days_in_month y m =
     (if m = 2 then (if is_leap y then 29 else 28)
      else if m = 4 \<or> m = 6 \<or> m = 9 \<or> m = 11 then 30 else 31)"

definition valid_date :: "date \<Rightarrow> bool" where
  "valid_date d \<longleftrightarrow>
     1 \<le> year d \<and> year d \<le> 9999 \<and> 1 \<le> month d \<and> month d \<le> 12 \<and>
     1 \<le> day d \<and> day d \<le> days_in_month (year d) (month d)"

definition c_int :: "int \<Rightarrow> bool" where
  "c_int i \<longleftrightarrow> - (2 ^ 31) \<le> i \<and> i < 2 ^ 31"

text \<open>The constructor \<^verbatim>\<open>dt.date(y, m, day)\<close>: it returns a date of the calendar or raises.\<close>

definition date_new :: "int \<Rightarrow> int \<Rightarrow> int \<Rightarrow> error + date" where
  "date_new y m dd =
     (if \<not> (c_int y \<and> c_int m \<and> c_int dd) then Inl OverflowError
      else if valid_date \<lparr>year = y, month = m, day = dd\<rparr>
        then Inr \<lparr>year = y, month = m, day = dd\<rparr>
        else Inl ValueError)"

text \<open>
  \<^verbatim>\<open>add_months\<close> (app.py, lines 136 to 141). Python's \<^verbatim>\<open>//\<close> and \<^verbatim>\<open>%\<close> on integers with a
  positive divisor are \<open>div\<close> and \<open>mod\<close> on \<open>int\<close>. The list of month lengths is the one
  written in the source, indexed by \<open>m - 1\<close>, which lies between 0 and 11.
\<close>

definition month_lengths :: "int \<Rightarrow> int list" where
  "month_lengths y =
     [31, if y mod 4 = 0 \<and> (y mod 100 \<noteq> 0 \<or> y mod 400 = 0) then 29 else 28,
      31, 30, 31, 30, 31, 31, 30, 31, 30, 31]"

definition add_months :: "date \<Rightarrow> int \<Rightarrow> error + date" where
  "add_months d months =
     (let y = year d + (month d - 1 + months) div 12;
          m = (month d - 1 + months) mod 12 + 1;
          dd = min (day d) (month_lengths y ! nat (m - 1))
      in date_new y m dd)"

text \<open>
  \<^verbatim>\<open>month_key\<close> (app.py, lines 132 to 133): the format specifications \<^verbatim>\<open>04d\<close> and \<^verbatim>\<open>02d\<close>
  print an integer in decimal, padded with zeros to the given width, the sign first.
\<close>

definition digit_char :: "nat \<Rightarrow> char" where
  "digit_char n = ''0123456789'' ! n"

fun digits :: "nat \<Rightarrow> string" where
  "digits n = (if n < 10 then [digit_char n] else digits (n div 10) @ [digit_char (n mod 10)])"

definition zero_pad :: "nat \<Rightarrow> string \<Rightarrow> string" where
  "zero_pad w s = replicate (w - length s) (CHR ''0'') @ s"

definition format_0d :: "nat \<Rightarrow> int \<Rightarrow> string" where
  "format_0d w i =
     (if i < 0 then CHR ''-'' # zero_pad (w - 1) (digits (nat (- i)))
      else zero_pad w (digits (nat i)))"

definition month_key :: "date \<Rightarrow> string" where
  "month_key d = format_0d 4 (year d) @ ''-'' @ format_0d 2 (month d)"

text \<open>The number of the month a date lies in, counted from the month 0000-01.\<close>

definition month_index :: "date \<Rightarrow> int" where
  "month_index d = 12 * year d + (month d - 1)"

declare digits.simps [simp del]

subsection \<open>Facts about the calendar functions\<close>

lemma month_lengths_nth:
  "1 \<le> m \<Longrightarrow> m \<le> 12 \<Longrightarrow> month_lengths y ! nat (m - 1) = days_in_month y m"
proof -
  assume "1 \<le> m" "m \<le> 12"
  then have "m = 1 \<or> m = 2 \<or> m = 3 \<or> m = 4 \<or> m = 5 \<or> m = 6 \<or> m = 7 \<or> m = 8 \<or> m = 9 \<or> m = 10 \<or> m = 11 \<or> m = 12"
    by arith
  then show ?thesis
    by (elim disjE) (simp_all add: month_lengths_def days_in_month_def is_leap_def)
qed

lemma days_in_month_bounds: "28 \<le> days_in_month y m" "days_in_month y m \<le> 31"
  by (simp_all add: days_in_month_def)

lemma add_months_unfold:
  "add_months d n =
     date_new (year d + (month d - 1 + n) div 12) ((month d - 1 + n) mod 12 + 1)
       (min (day d) (days_in_month (year d + (month d - 1 + n) div 12) ((month d - 1 + n) mod 12 + 1)))"
proof -
  have "1 \<le> (month d - 1 + n) mod 12 + 1" "(month d - 1 + n) mod 12 + 1 \<le> 12"
    by simp_all
  then have "month_lengths y ! nat ((month d - 1 + n) mod 12 + 1 - 1) =
      days_in_month y ((month d - 1 + n) mod 12 + 1)" for y
    by (rule month_lengths_nth)
  then show ?thesis
    unfolding add_months_def Let_def by (simp only:)
qed

lemma add_months_Inr_iff:
  "add_months d n = Inr r \<longleftrightarrow>
     1 \<le> year d + (month d - 1 + n) div 12 \<and> year d + (month d - 1 + n) div 12 \<le> 9999 \<and>
     1 \<le> day d \<and>
     r = \<lparr>year = year d + (month d - 1 + n) div 12, month = (month d - 1 + n) mod 12 + 1,
          day = min (day d) (days_in_month (year d + (month d - 1 + n) div 12) ((month d - 1 + n) mod 12 + 1))\<rparr>"
  (is "?L \<longleftrightarrow> ?R")
proof -
  let ?y = "year d + (month d - 1 + n) div 12"
  let ?m = "(month d - 1 + n) mod 12 + 1"
  have m: "1 \<le> ?m" "?m \<le> 12"
    by simp_all
  have dim: "28 \<le> days_in_month ?y ?m" "days_in_month ?y ?m \<le> 31"
    by (rule days_in_month_bounds)+
  show ?thesis
    unfolding add_months_unfold date_new_def valid_date_def c_int_def
    using m dim by (auto simp: min_def)
qed


lemma add_months_ok:
  assumes "valid_date d" "12 \<le> month_index d + n" "month_index d + n < 120000"
  shows "\<exists>r. add_months d n = Inr r \<and> valid_date r \<and> month_index r = month_index d + n \<and>
     day r = (if day d \<le> days_in_month (year r) (month r) then day d else days_in_month (year r) (month r))"
proof -
  let ?k = "month d - 1 + n"
  let ?y = "year d + ?k div 12"
  let ?m = "?k mod 12 + 1"
  let ?r = "\<lparr>year = ?y, month = ?m, day = min (day d) (days_in_month ?y ?m)\<rparr>"
  have k: "month_index d + n = 12 * year d + ?k"
    by (simp add: month_index_def)
  have y: "1 \<le> ?y" "?y \<le> 9999"
    using assms(2,3) unfolding k by linarith+
  have d1: "1 \<le> day d"
    using assms(1) by (simp add: valid_date_def)
  have r: "add_months d n = Inr ?r"
    using y d1 by (simp add: add_months_Inr_iff)
  have dim: "28 \<le> days_in_month ?y ?m"
    by (rule days_in_month_bounds)
  have v: "valid_date ?r"
    using y d1 dim by (simp add: valid_date_def)
  have mi: "month_index ?r = month_index d + n"
    unfolding k by (simp add: month_index_def) 
  have dd: "day ?r = (if day d \<le> days_in_month (year ?r) (month ?r) then day d else days_in_month (year ?r) (month ?r))"
    by (simp add: min_def)
  show ?thesis
    using r v mi dd by blast
qed

lemma add_months_out_of_range:
  assumes "valid_date d" "\<not> (12 \<le> month_index d + n \<and> month_index d + n < 120000)"
  shows "\<exists>e. add_months d n = Inl e"
proof -
  let ?k = "month d - 1 + n"
  have k: "month_index d + n = 12 * year d + ?k"
    by (simp add: month_index_def)
  have "\<not> (1 \<le> year d + ?k div 12 \<and> year d + ?k div 12 \<le> 9999)"
    using assms(2) unfolding k by linarith
  then have "\<forall>r. add_months d n \<noteq> Inr r"
    by (auto simp: add_months_Inr_iff)
  then show ?thesis
    by (cases "add_months d n") auto
qed

lemma add_months_month_index:
  "add_months d n = Inr r \<Longrightarrow> month_index r = month_index d + n"
  by (auto simp: add_months_Inr_iff month_index_def)

lemma add_months_valid:
  "add_months d n = Inr r \<Longrightarrow> valid_date r"
  using days_in_month_bounds(1) [of "year d + (month d - 1 + n) div 12" "(month d - 1 + n) mod 12 + 1"]
  by (auto simp: add_months_Inr_iff valid_date_def)

lemma add_months_round_trip:
  assumes "valid_date d" "add_months d n = Inr d1" "day d1 = day d"
  shows "add_months d1 (- n) = Inr d"
proof -
  let ?k = "month d - 1 + n"
  have d1: "year d1 = year d + ?k div 12" "month d1 = ?k mod 12 + 1"
    using assms(2) by (auto simp: add_months_Inr_iff)
  have m: "1 \<le> month d" "month d \<le> 12"
    using assms(1) by (simp_all add: valid_date_def)
  have "month d1 - 1 + - n = ?k mod 12 - ?k + (month d - 1)"
    by (simp add: d1)
  also have "\<dots> = (month d - 1) - 12 * (?k div 12)"
    by (simp add: minus_div_mult_eq_mod [symmetric])
  finally have e: "month d1 - 1 + - n = (month d - 1) + (- (?k div 12)) * 12"
    by simp
  define Q where "Q = ?k div 12"
  have q: "(month d1 - 1 + - n) div 12 = - (?k div 12)"
    using e m unfolding Q_def [symmetric] by presburger
  have r: "(month d1 - 1 + - n) mod 12 = month d - 1"
    using e m unfolding Q_def [symmetric] by presburger
  have ym: "year d1 + (month d1 - 1 + - n) div 12 = year d"
    using q d1(1) by simp
  have mm: "(month d1 - 1 + - n) mod 12 + 1 = month d"
    using r by simp
  have "add_months d1 (- n) = Inr \<lparr>year = year d, month = month d, day = day d\<rparr>"
    unfolding add_months_Inr_iff ym mm
    using assms(1) assms(3) by (simp add: valid_date_def)
  then show ?thesis by simp
qed

subsection \<open>Facts about the month key\<close>

lemma digits_1: "n < 10 \<Longrightarrow> digits n = [digit_char n]"
  by (simp add: digits.simps [of n])

lemma digits_step: "10 \<le> n \<Longrightarrow> digits n = digits (n div 10) @ [digit_char (n mod 10)]"
  by (simp add: digits.simps [of n])

lemma digits_2:
  assumes "10 \<le> n" "n < 100"
  shows "digits n = [digit_char (n div 10), digit_char (n mod 10)]"
proof -
  have "n div 10 < 10" using assms(2) by arith
  then show ?thesis
    by (simp add: digits_step [OF assms(1)] digits_1)
qed

lemma digits_3:
  assumes "100 \<le> n" "n < 1000"
  shows "digits n = [digit_char (n div 100), digit_char (n div 10 mod 10), digit_char (n mod 10)]"
proof -
  have a: "10 \<le> n" "10 \<le> n div 10" "n div 10 < 100" using assms by arith+
  have b: "n div 10 div 10 = n div 100" by (simp add: div_mult2_eq [symmetric])
  show ?thesis
    by (simp add: digits_step [OF a(1)] digits_2 [OF a(2,3)] b)
qed

lemma digits_4:
  assumes "1000 \<le> n" "n < 10000"
  shows "digits n = [digit_char (n div 1000), digit_char (n div 100 mod 10),
    digit_char (n div 10 mod 10), digit_char (n mod 10)]"
proof -
  have a: "10 \<le> n" "100 \<le> n div 10" "n div 10 < 1000" using assms by arith+
  have b: "n div 10 div 100 = n div 1000" "n div 10 div 10 = n div 100"
    by (simp_all add: div_mult2_eq [symmetric])
  show ?thesis
    by (simp add: digits_step [OF a(1)] digits_3 [OF a(2,3)] b)
qed

lemma digit_char_0: "digit_char 0 = CHR ''0''"
  by (simp add: digit_char_def)

lemma zero_pad_digits_2:
  assumes "n < 100"
  shows "zero_pad 2 (digits n) = [digit_char (n div 10), digit_char (n mod 10)]"
proof (cases "n < 10")
  case True
  then show ?thesis
    by (simp add: digits_1 zero_pad_def digit_char_0)
next
  case False
  then show ?thesis
    using assms by (simp add: digits_2 zero_pad_def)
qed

lemma zero_pad_digits_4:
  assumes "n < 10000"
  shows "zero_pad 4 (digits n) =
    [digit_char (n div 1000), digit_char (n div 100 mod 10), digit_char (n div 10 mod 10), digit_char (n mod 10)]"
proof -
  consider "n < 10" | "10 \<le> n \<and> n < 100" | "100 \<le> n \<and> n < 1000" | "1000 \<le> n"
    by linarith
  then show ?thesis
  proof cases
    case 1
    then show ?thesis
      by (simp add: digits_1 zero_pad_def digit_char_0 numeral_3_eq_3)
  next
    case 2
    then have "n div 10 < 10" by arith
    then have m: "n div 10 mod 10 = n div 10" by simp
    have z: "n div 100 = 0" "n div 1000 = 0" using 2 by simp_all
    have "zero_pad 4 (digits n) = [CHR ''0'', CHR ''0'', digit_char (n div 10), digit_char (n mod 10)]"
      using 2 by (simp add: digits_2 zero_pad_def numeral_2_eq_2)
    then show ?thesis
      by (simp add: m z digit_char_0)
  next
    case 3
    then have "n div 100 < 10" by arith
    then have m: "n div 100 mod 10 = n div 100" by simp
    have z: "n div 1000 = 0" using 3 by simp
    have "zero_pad 4 (digits n) = [CHR ''0'', digit_char (n div 100), digit_char (n div 10 mod 10), digit_char (n mod 10)]"
      using 3 by (simp add: digits_3 zero_pad_def)
    then show ?thesis
      by (simp add: m z digit_char_0)
  next
    case 4
    then show ?thesis
      using assms by (simp add: digits_4 zero_pad_def)
  qed
qed

lemma digit_char_inj: "a < 10 \<Longrightarrow> b < 10 \<Longrightarrow> digit_char a = digit_char b \<Longrightarrow> a = b"
proof -
  assume a: "a < 10" and b: "b < 10" and e: "digit_char a = digit_char b"
  have "distinct ''0123456789''" by simp
  moreover have "a < length ''0123456789''" "b < length ''0123456789''"
    using a b by simp_all
  ultimately show "a = b"
    using e unfolding digit_char_def by (simp only: nth_eq_iff_index_eq)
qed

lemma decimal_4: "(n::nat) = 1000 * (n div 1000) + 100 * (n div 100 mod 10) + 10 * (n div 10 mod 10) + n mod 10"
proof -
  have a: "n = 10 * (n div 10) + n mod 10" by simp
  have "n div 10 = 10 * (n div 10 div 10) + n div 10 mod 10" by simp
  then have b: "n div 10 = 10 * (n div 100) + n div 10 mod 10"
    by (simp add: div_mult2_eq [symmetric])
  have "n div 100 = 10 * (n div 100 div 10) + n div 100 mod 10" by simp
  then have c: "n div 100 = 10 * (n div 1000) + n div 100 mod 10"
    by (simp add: div_mult2_eq [symmetric])
  show ?thesis using a b c by linarith
qed

lemma format_0d_2_inj:
  assumes "0 \<le> a" "a < 100" "0 \<le> b" "b < 100" "format_0d 2 a = format_0d 2 b"
  shows "a = b"
proof -
  let ?a = "nat a" and ?b = "nat b"
  have ab: "?a < 100" "?b < 100" using assms by simp_all
  have "[digit_char (?a div 10), digit_char (?a mod 10)] = [digit_char (?b div 10), digit_char (?b mod 10)]"
    using assms zero_pad_digits_2 [OF ab(1)] zero_pad_digits_2 [OF ab(2)]
    by (simp add: format_0d_def)
  moreover have "?a div 10 < 10" "?b div 10 < 10" using ab by simp_all
  ultimately have "?a div 10 = ?b div 10" "?a mod 10 = ?b mod 10"
    by (auto intro: digit_char_inj)
  then have "?a = ?b"
    by (metis div_mult_mod_eq)
  then show ?thesis using assms by simp
qed

lemma format_0d_4_inj:
  assumes "0 \<le> a" "a < 10000" "0 \<le> b" "b < 10000" "format_0d 4 a = format_0d 4 b"
  shows "a = b"
proof -
  let ?a = "nat a" and ?b = "nat b"
  have ab: "?a < 10000" "?b < 10000" using assms by simp_all
  have "[digit_char (?a div 1000), digit_char (?a div 100 mod 10), digit_char (?a div 10 mod 10), digit_char (?a mod 10)]
      = [digit_char (?b div 1000), digit_char (?b div 100 mod 10), digit_char (?b div 10 mod 10), digit_char (?b mod 10)]"
    using assms zero_pad_digits_4 [OF ab(1)] zero_pad_digits_4 [OF ab(2)]
    by (simp add: format_0d_def)
  moreover have "?a div 1000 < 10" "?b div 1000 < 10" using ab by simp_all
  ultimately have "?a div 1000 = ?b div 1000" "?a div 100 mod 10 = ?b div 100 mod 10"
     "?a div 10 mod 10 = ?b div 10 mod 10" "?a mod 10 = ?b mod 10"
    by (auto intro: digit_char_inj)
  then have "?a = ?b"
    using decimal_4 [of ?a] decimal_4 [of ?b] by (simp only:)
  then show ?thesis using assms by simp
qed

lemma length_format_0d_4: "0 \<le> a \<Longrightarrow> a < 10000 \<Longrightarrow> length (format_0d 4 a) = 4"
  using zero_pad_digits_4 [of "nat a"] by (simp add: format_0d_def)

lemma month_key_inj:
  assumes "valid_date d1" "valid_date d2" "month_key d1 = month_key d2"
  shows "year d1 = year d2 \<and> month d1 = month d2"
proof -
  have y: "0 \<le> year d1" "year d1 < 10000" "0 \<le> year d2" "year d2 < 10000"
    and m: "0 \<le> month d1" "month d1 < 100" "0 \<le> month d2" "month d2 < 100"
    using assms(1,2) by (simp_all add: valid_date_def)
  have "length (format_0d 4 (year d1)) = length (format_0d 4 (year d2))"
    using y by (simp add: length_format_0d_4)
  then have "format_0d 4 (year d1) = format_0d 4 (year d2)" "format_0d 2 (month d1) = format_0d 2 (month d2)"
    using assms(3) by (simp_all add: month_key_def)
  then show ?thesis
    using y m by (auto intro: format_0d_4_inj format_0d_2_inj)
qed

subsection \<open>The claims about the calendar functions\<close>

text \<open>
  C5 (as amended). For every calendar date \<open>d\<close> and every integer \<open>n\<close>, negative ones
  included, whose target month lies in the years 1 to 9999, \<^verbatim>\<open>add_months(d, n)\<close> returns a
  date of the calendar that lies \<open>n\<close> months after the month of \<open>d\<close>; its day is the day of
  \<open>d\<close> when the target month has that many days and the last day of the target month
  otherwise, February having 29 days exactly in the years divisible by 4 and not by 100,
  or divisible by 400. For a target month outside these years the call raises.
\<close>

theorem add_months_correct:
  assumes "valid_date d"
  shows "(12 \<le> month_index d + n \<and> month_index d + n < 120000 \<longrightarrow>
            (\<exists>r. add_months d n = Inr r \<and> valid_date r \<and> month_index r = month_index d + n \<and>
                 day r = (if day d \<le> days_in_month (year r) (month r) then day d
                          else days_in_month (year r) (month r)) \<and>
                 days_in_month (year r) 2 =
                   (if year r mod 4 = 0 \<and> (year r mod 100 \<noteq> 0 \<or> year r mod 400 = 0) then 29 else 28))) \<and>
         (\<not> (12 \<le> month_index d + n \<and> month_index d + n < 120000) \<longrightarrow>
            (\<exists>e. add_months d n = Inl e))"
proof (intro conjI impI)
  assume "12 \<le> month_index d + n \<and> month_index d + n < 120000"
  then obtain r where r: "add_months d n = Inr r" "valid_date r"
      "month_index r = month_index d + n"
      "day r = (if day d \<le> days_in_month (year r) (month r) then day d
                else days_in_month (year r) (month r))"
    using add_months_ok [OF assms, of n] by blast
  have "days_in_month (year r) 2 =
      (if year r mod 4 = 0 \<and> (year r mod 100 \<noteq> 0 \<or> year r mod 400 = 0) then 29 else 28)"
    by (simp add: days_in_month_def is_leap_def)
  with r show "\<exists>r. add_months d n = Inr r \<and> valid_date r \<and> month_index r = month_index d + n \<and>
      day r = (if day d \<le> days_in_month (year r) (month r) then day d
               else days_in_month (year r) (month r)) \<and>
      days_in_month (year r) 2 =
        (if year r mod 4 = 0 \<and> (year r mod 100 \<noteq> 0 \<or> year r mod 400 = 0) then 29 else 28)"
    by blast
next
  assume "\<not> (12 \<le> month_index d + n \<and> month_index d + n < 120000)"
  then show "\<exists>e. add_months d n = Inl e"
    using assms by (rule add_months_out_of_range [rotated])
qed

theorem add_months_correct_witness:
  "valid_date \<lparr>year = 2024, month = 1, day = 31\<rparr> \<and>
   (\<exists>r. add_months \<lparr>year = 2024, month = 1, day = 31\<rparr> 1 = Inr r \<and> valid_date r \<and>
        month_index r = 24289 \<and> day r \<le> 31)"
proof -
  have v: "valid_date \<lparr>year = 2024, month = 1, day = 31\<rparr>"
    by (simp add: valid_date_def days_in_month_def)
  show ?thesis
    using v add_months_correct [OF v, of 1]
    by (auto simp: month_index_def split: if_splits)
qed

text \<open>
  The claim as stated fails where the target month leaves the calendar of the date type:
  one month after 9999-12-01 the constructor raises \<^verbatim>\<open>ValueError\<close>.
\<close>

theorem add_months_past_year_9999:
  "add_months \<lparr>year = 9999, month = 12, day = 1\<rparr> 1 = Inl ValueError"
  by (simp add: add_months_def Let_def month_lengths_def date_new_def c_int_def valid_date_def)

text \<open>
  C6. A round trip of \<^verbatim>\<open>add_months\<close> by \<open>n\<close> and then by \<open>- n\<close> gives the date back
  whenever the first application kept the day of the month (the second then keeps it as
  well). After a clamped step it need not: 2024-01-31 goes to 2024-02-29 and back to
  2024-01-29.
\<close>

theorem add_months_round_trip_unclamped:
  assumes "valid_date d" "add_months d n = Inr d1" "day d1 = day d"
  shows "add_months d1 (- n) = Inr d \<and>
         (add_months \<lparr>year = 2024, month = 1, day = 31\<rparr> 1 = Inr \<lparr>year = 2024, month = 2, day = 29\<rparr> \<and>
          add_months \<lparr>year = 2024, month = 2, day = 29\<rparr> (- 1) = Inr \<lparr>year = 2024, month = 1, day = 29\<rparr>)"
proof -
  have "add_months d1 (- n) = Inr d"
    using assms by (rule add_months_round_trip)
  moreover have "add_months \<lparr>year = 2024, month = 1, day = 31\<rparr> 1 = Inr \<lparr>year = 2024, month = 2, day = 29\<rparr>"
    by (simp add: add_months_Inr_iff days_in_month_def is_leap_def)
  moreover have "add_months \<lparr>year = 2024, month = 2, day = 29\<rparr> (- 1) = Inr \<lparr>year = 2024, month = 1, day = 29\<rparr>"
    by (simp add: add_months_Inr_iff days_in_month_def is_leap_def)
  ultimately show ?thesis by simp
qed

theorem add_months_round_trip_unclamped_witness:
  "add_months \<lparr>year = 2024, month = 2, day = 15\<rparr> (- 1) = Inr \<lparr>year = 2024, month = 1, day = 15\<rparr>"
proof -
  have v: "valid_date \<lparr>year = 2024, month = 1, day = 15\<rparr>"
    by (simp add: valid_date_def days_in_month_def)
  have a: "add_months \<lparr>year = 2024, month = 1, day = 15\<rparr> 1 = Inr \<lparr>year = 2024, month = 2, day = 15\<rparr>"
    by (simp add: add_months_Inr_iff days_in_month_def is_leap_def)
  show ?thesis
    using add_months_round_trip_unclamped [OF v a] by simp
qed

text \<open>
  C7. Two dates of the same calendar month have the same \<^verbatim>\<open>month_key\<close>, and two dates of
  different calendar months have different keys.
\<close>

theorem month_key_same_month_iff:
  assumes "valid_date d1" "valid_date d2"
  shows "(year d1 = year d2 \<and> month d1 = month d2 \<longrightarrow> month_key d1 = month_key d2) \<and>
         (\<not> (year d1 = year d2 \<and> month d1 = month d2) \<longrightarrow> month_key d1 \<noteq> month_key d2)"
  using month_key_inj [OF assms] by (auto simp: month_key_def)

theorem month_key_same_month_iff_witness:
  "month_key \<lparr>year = 2024, month = 1, day = 31\<rparr> \<noteq> month_key \<lparr>year = 2024, month = 2, day = 1\<rparr> \<and>
   month_key \<lparr>year = 2024, month = 1, day = 31\<rparr> = month_key \<lparr>year = 2024, month = 1, day = 1\<rparr>"
proof -
  have v: "valid_date \<lparr>year = 2024, month = 1, day = 31\<rparr>" "valid_date \<lparr>year = 2024, month = 2, day = 1\<rparr>"
    "valid_date \<lparr>year = 2024, month = 1, day = 1\<rparr>"
    by (simp_all add: valid_date_def days_in_month_def)
  show ?thesis
    using month_key_same_month_iff [OF v(1) v(2)] month_key_same_month_iff [OF v(1) v(3)]
    by simp
qed

section \<open>The ledger store\<close>

text \<open>
  The tables of \<^verbatim>\<open>init_db\<close> (app.py, lines 49 to 119). A \<^verbatim>\<open>TEXT\<close> column that may be
  \<^verbatim>\<open>NULL\<close> is a \<open>string option\<close>; the \<^verbatim>\<open>CHECK\<close> on \<^verbatim>\<open>ttype\<close> makes it an enumeration;
  a \<^verbatim>\<open>REAL\<close> amount is a real number. The date columns hold the ISO text of a date, which
  \<^verbatim>\<open>isoformat\<close> writes and \<^verbatim>\<open>to_date\<close> reads back, and are modelled as the date. The column
  \<^verbatim>\<open>created_at\<close> of a transaction and the surrogate \<^verbatim>\<open>id\<close> of a budget row, which no
  operation below reads, are left out.
\<close>

datatype ttype = Expense | Income


record txn =
  t_id :: int
  t_date :: date
  t_ttype :: ttype
  t_category :: string
  t_description :: "string option"
  t_amount :: real
  t_account :: "string option"

record budget =
  b_month :: string
  b_category :: string
  b_amount :: real

record rule =
  r_id :: int
  r_ttype :: ttype
  r_category :: string
  r_description :: "string option"
  r_amount :: real
  interval :: string
  next_date :: date

text \<open>
  The database: the four tables in row order, and the \<^verbatim>\<open>AUTOINCREMENT\<close> counter of the
  transactions table (the largest id given out so far).
\<close>

record store =
  transactions :: "txn list"
  transactions_seq :: int
  categories :: "string list"
  budgets :: "budget list"
  recurring :: "rule list"

text \<open>\<^verbatim>\<open>INSERT INTO transactions(date, ttype, category, description, amount, account)\<close>.\<close>

definition insert_transaction ::
  "date \<Rightarrow> ttype \<Rightarrow> string \<Rightarrow> string option \<Rightarrow> real \<Rightarrow> string option \<Rightarrow> store \<Rightarrow> store" where
  "insert_transaction d ty c de a acc s =
     s\<lparr>transactions := transactions s @
          [\<lparr>t_id = transactions_seq s + 1, t_date = d, t_ttype = ty, t_category = c,
            t_description = de, t_amount = a, t_account = acc\<rparr>],
       transactions_seq := transactions_seq s + 1\<rparr>"

text \<open>\<^verbatim>\<open>UPDATE recurring SET next_date=? WHERE id=?\<close>.\<close>

definition update_next_date :: "date \<Rightarrow> int \<Rightarrow> store \<Rightarrow> store" where
  "update_next_date d i s =
     s\<lparr>recurring := map (\<lambda>r. if r_id r = i then r\<lparr>next_date := d\<rparr> else r) (recurring s)\<rparr>"

section \<open>Recurring processing\<close>

text \<open>
  The \<^verbatim>\<open>while next_date <= now\<close> loop of \<^verbatim>\<open>apply_recurring\<close> (app.py, lines 154 to 175)
  for one row \<open>r\<close>: it returns the date the loop stops at, the store and the count, or
  the exception \<^verbatim>\<open>add_months\<close> raises.
\<close>

function post_due :: "date \<Rightarrow> rule \<Rightarrow> date \<Rightarrow> store \<Rightarrow> nat \<Rightarrow> error + (date \<times> store \<times> nat)" where
  "post_due now r cursor s made =
     (if date_le cursor now then
        (let s' = insert_transaction cursor (r_ttype r) (r_category r) (r_description r)
                    (r_amount r) (Some ''Recurring'') s;
             made' = made + 1
         in if interval r = ''monthly'' then
              (case add_months cursor 1 of
                 Inl e \<Rightarrow> Inl e
               | Inr c \<Rightarrow> post_due now r c s' made')
            else Inr (cursor, s', made'))
      else Inr (cursor, s, made))"
  by pat_completeness auto
termination
proof (relation "measure (\<lambda>(now, r, c, s, made).
    if date_le c now then 1 + nat (12 * year now + 12 - month_index c) else 0)")
  show "wf (measure (\<lambda>(now, r, c, s, made).
    if date_le c now then 1 + nat (12 * year now + 12 - month_index c) else 0))"
    by simp
next
  fix now :: date and r :: rule and cursor :: date and s :: store and made :: nat
    and x :: store and xa :: nat and x2 :: date
  assume le: "date_le cursor now" and step: "add_months cursor 1 = Inr x2"
  have y: "month x2 \<le> 12"
    using add_months_valid [OF step] by (simp add: valid_date_def)
  have mi: "month_index x2 = month_index cursor + 1"
    using step by (rule add_months_month_index)
  have "date_le x2 now \<Longrightarrow> month_index x2 \<le> 12 * year now + 11"
    using y by (auto simp: date_le_def month_index_def)
  then show "((now, r, x2, x, xa), (now, r, cursor, s, made))
    \<in> measure (\<lambda>(now, r, c, s, made).
        if date_le c now then 1 + nat (12 * year now + 12 - month_index c) else 0)"
    using le mi by auto
qed

declare post_due.simps [simp del]

text \<open>
  The \<^verbatim>\<open>for r in rows\<close> loop (lines 152 to 178) over the rows fetched at the start, and
  \<^verbatim>\<open>apply_recurring\<close> itself: it returns the count and leaves the store changed. An
  exception leaves the function before \<^verbatim>\<open>conn.commit()\<close>.
\<close>

fun for_rows :: "date \<Rightarrow> rule list \<Rightarrow> store \<Rightarrow> nat \<Rightarrow> error + (store \<times> nat)" where
  "for_rows now [] s made = Inr (s, made)"
| "for_rows now (r # rows) s made =
     (case post_due now r (next_date r) s made of
        Inl e \<Rightarrow> Inl e
      | Inr (cursor, s', made') \<Rightarrow>
          for_rows now rows
            (if cursor \<noteq> next_date r then update_next_date cursor (r_id r) s' else s') made')"

definition apply_recurring :: "date \<Rightarrow> store \<Rightarrow> error + (nat \<times> store)" where
  "apply_recurring now s =
     (case for_rows now (recurring s) s 0 of
        Inl e \<Rightarrow> Inl e
      | Inr (s', made) \<Rightarrow> Inr (made, s'))"

text \<open>
  The occurrences of a monthly schedule that are due at \<open>now\<close>, in the words of the
  specification: the dates \<open>d\<close>, \<^verbatim>\<open>add_months(d, 1)\<close>,
  \<^verbatim>\<open>add_months(add_months(d, 1), 1)\<close> and so on, while the date is on or before \<open>now\<close>.
\<close>

function scheduled :: "date \<Rightarrow> date \<Rightarrow> date list" where
  "scheduled now d =
     (if date_le d now then
        d # (case add_months d 1 of Inl e \<Rightarrow> [] | Inr d' \<Rightarrow> scheduled now d')
      else [])"
  by pat_completeness auto
termination
proof (relation "measure (\<lambda>(now, c).
    if date_le c now then 1 + nat (12 * year now + 12 - month_index c) else 0)")
  show "wf (measure (\<lambda>(now, c).
    if date_le c now then 1 + nat (12 * year now + 12 - month_index c) else 0))"
    by simp
next
  fix now :: date and d :: date and x2 :: date
  assume le: "date_le d now" and step: "add_months d 1 = Inr x2"
  have y: "month x2 \<le> 12"
    using add_months_valid [OF step] by (simp add: valid_date_def)
  have mi: "month_index x2 = month_index d + 1"
    using step by (rule add_months_month_index)
  have "date_le x2 now \<Longrightarrow> month_index x2 \<le> 12 * year now + 11"
    using y by (auto simp: date_le_def month_index_def)
  then show "((now, x2), (now, d))
    \<in> measure (\<lambda>(now, c).
        if date_le c now then 1 + nat (12 * year now + 12 - month_index c) else 0)"
    using le mi by auto
qed

declare scheduled.simps [simp del]

text \<open>
  The six columns an \<^verbatim>\<open>INSERT\<close> of the program writes (all but the id), the values the
  poster writes for an occurrence of a rule, and the \<^verbatim>\<open>INSERT\<close> of the loop body.
\<close>

definition txn_fields :: "txn \<Rightarrow> date \<times> ttype \<times> string \<times> string option \<times> real \<times> string option" where
  "txn_fields t = (t_date t, t_ttype t, t_category t, t_description t, t_amount t, t_account t)"

definition rule_occurrence :: "rule \<Rightarrow> date \<Rightarrow> date \<times> ttype \<times> string \<times> string option \<times> real \<times> string option" where
  "rule_occurrence r d = (d, r_ttype r, r_category r, r_description r, r_amount r, Some ''Recurring'')"

definition post_occurrence :: "rule \<Rightarrow> store \<Rightarrow> date \<Rightarrow> store" where
  "post_occurrence r s d =
     insert_transaction d (r_ttype r) (r_category r) (r_description r) (r_amount r) (Some ''Recurring'') s"

subsection \<open>Facts about the loop over one rule\<close>

lemma post_due_unfold:
  "post_due now r cursor s made =
     (if date_le cursor now then
        if interval r = ''monthly'' then
          (case add_months cursor 1 of
             Inl e \<Rightarrow> Inl e
           | Inr c \<Rightarrow> post_due now r c (post_occurrence r s cursor) (made + 1))
        else Inr (cursor, post_occurrence r s cursor, made + 1)
      else Inr (cursor, s, made))"
  unfolding post_occurrence_def by (subst post_due.simps) (simp only: Let_def)

lemma foldl_post_occurrence:
  "\<exists>new. transactions (foldl (post_occurrence r) s ds) = transactions s @ new \<and>
     map txn_fields new = map (rule_occurrence r) ds \<and>
     transactions_seq (foldl (post_occurrence r) s ds) = transactions_seq s + int (length ds) \<and>
     recurring (foldl (post_occurrence r) s ds) = recurring s \<and>
     categories (foldl (post_occurrence r) s ds) = categories s \<and>
     budgets (foldl (post_occurrence r) s ds) = budgets s"
proof (induction ds arbitrary: s)
  case Nil
  show ?case by simp
next
  case (Cons d ds)
  let ?s = "post_occurrence r s d"
  obtain new where new: "transactions (foldl (post_occurrence r) ?s ds) = transactions ?s @ new"
    "map txn_fields new = map (rule_occurrence r) ds"
    "transactions_seq (foldl (post_occurrence r) ?s ds) = transactions_seq ?s + int (length ds)"
    "recurring (foldl (post_occurrence r) ?s ds) = recurring ?s"
    "categories (foldl (post_occurrence r) ?s ds) = categories ?s"
    "budgets (foldl (post_occurrence r) ?s ds) = budgets ?s"
    using Cons.IH [of ?s] by blast
  have s: "transactions ?s = transactions s @ [\<lparr>t_id = transactions_seq s + 1, t_date = d,
       t_ttype = r_ttype r, t_category = r_category r, t_description = r_description r,
       t_amount = r_amount r, t_account = Some ''Recurring''\<rparr>]"
    "transactions_seq ?s = transactions_seq s + 1" "recurring ?s = recurring s"
    "categories ?s = categories s" "budgets ?s = budgets s"
    by (simp_all add: post_occurrence_def insert_transaction_def)
  have f: "txn_fields \<lparr>t_id = transactions_seq s + 1, t_date = d,
       t_ttype = r_ttype r, t_category = r_category r, t_description = r_description r,
       t_amount = r_amount r, t_account = Some ''Recurring''\<rparr> = rule_occurrence r d"
    by (simp add: txn_fields_def rule_occurrence_def)
  show ?case
    apply (rule exI [of _ "\<lparr>t_id = transactions_seq s + 1, t_date = d,
       t_ttype = r_ttype r, t_category = r_category r, t_description = r_description r,
       t_amount = r_amount r, t_account = Some ''Recurring''\<rparr> # new"])
    using new s f by simp
qed

lemma post_due_monthly:
  assumes "interval r = ''monthly''" "post_due now r c s made = Inr (c', s', made')"
  shows "s' = foldl (post_occurrence r) s (scheduled now c) \<and>
         made' = made + length (scheduled now c) \<and> \<not> date_le c' now \<and>
         (c' = c \<longleftrightarrow> \<not> date_le c now)"
  using assms
proof (induction now r c s made rule: post_due.induct)
  case (1 now r cursor s made)
  show ?case
  proof (cases "date_le cursor now")
    case False
    then have "scheduled now cursor = []"
      by (simp add: scheduled.simps [of now cursor])
    moreover have "c' = cursor" "s' = s" "made' = made"
      using False "1.prems" by (simp_all add: post_due_unfold [of now r cursor])
    ultimately show ?thesis
      using False by simp
  next
    case True
    then obtain c2 where c2: "add_months cursor 1 = Inr c2"
      and rec: "post_due now r c2 (post_occurrence r s cursor) (made + 1) = Inr (c', s', made')"
      using "1.prems" by (auto simp: post_due_unfold [of now r cursor] split: sum.splits)
    have IH: "s' = foldl (post_occurrence r) (post_occurrence r s cursor) (scheduled now c2) \<and>
         made' = made + 1 + length (scheduled now c2) \<and> \<not> date_le c' now \<and>
         (c' = c2 \<longleftrightarrow> \<not> date_le c2 now)"
      using "1.IH" [OF True refl refl "1.prems"(1) c2 "1.prems"(1)] rec
      unfolding post_occurrence_def by simp
    have "c' \<noteq> cursor" using IH True by auto
    then show ?thesis
      using IH True c2 by (simp add: scheduled.simps [of now cursor])
  qed
qed

lemma post_due_other:
  assumes "interval r \<noteq> ''monthly''"
  shows "post_due now r c s made =
     (if date_le c now then Inr (c, post_occurrence r s c, made + 1) else Inr (c, s, made))"
  using assms by (simp add: post_due_unfold [of now r c])

text \<open>
  What one pass does with a rule, read off the loop: the dates it posts, and how the
  stored row \<open>r'\<close> of the rule stands to the row \<open>r\<close> before the pass.
\<close>

definition due_dates :: "date \<Rightarrow> rule \<Rightarrow> date list" where
  "due_dates now r =
     (if interval r = ''monthly'' then scheduled now (next_date r)
      else if date_le (next_date r) now then [next_date r] else [])"

definition advanced :: "date \<Rightarrow> rule \<Rightarrow> rule \<Rightarrow> bool" where
  "advanced now r r' \<longleftrightarrow>
     r'\<lparr>next_date := next_date r\<rparr> = r \<and>
     (interval r = ''monthly'' \<longrightarrow> \<not> date_le (next_date r') now) \<and>
     (interval r \<noteq> ''monthly'' \<longrightarrow> r' = r) \<and>
     (\<not> date_le (next_date r) now \<longrightarrow> r' = r)"

subsection \<open>Facts about the pass over all rules\<close>

lemma post_due_Inr:
  assumes "post_due now r (next_date r) s made = Inr (c, s', made')"
  shows "s' = foldl (post_occurrence r) s (due_dates now r) \<and>
         made' = made + length (due_dates now r) \<and>
         advanced now r (r\<lparr>next_date := c\<rparr>)"
proof (cases "interval r = ''monthly''")
  case True
  then show ?thesis
    using post_due_monthly [OF True assms]
    by (auto simp: due_dates_def advanced_def)
next
  case False
  then show ?thesis
    using assms
    by (auto simp: post_due_other due_dates_def advanced_def split: if_splits)
qed

lemma post_due_returns:
  assumes "valid_date c" "year now < 9999"
  shows "\<exists>res. post_due now r c s made = Inr res"
  using assms
proof (induction now r c s made rule: post_due.induct)
  case (1 now r cursor s made)
  show ?case
  proof (cases "date_le cursor now \<and> interval r = ''monthly''")
    case False
    then show ?thesis
      by (auto simp: post_due_unfold [of now r cursor])
  next
    case True
    then have "year cursor \<le> year now"
      by (auto simp: date_le_def)
    then have "12 \<le> month_index cursor + 1" "month_index cursor + 1 < 120000"
      using "1.prems" by (auto simp: valid_date_def month_index_def)
    then obtain c2 where c2: "add_months cursor 1 = Inr c2" "valid_date c2"
      using add_months_ok [OF "1.prems"(1), of 1] by blast
    have "\<exists>res. post_due now r c2 (post_occurrence r s cursor) (made + 1) = Inr res"
      using "1.IH" [OF _ refl refl _ c2(1) c2(2) "1.prems"(2)] True
      unfolding post_occurrence_def by simp
    then show ?thesis
      using True c2 by (simp add: post_due_unfold [of now r cursor])
  qed
qed

lemma for_rows_returns:
  assumes "\<forall>r\<in>set rs. valid_date (next_date r)" "year now < 9999"
  shows "\<exists>res. for_rows now rs s made = Inr res"
  using assms
proof (induction rs arbitrary: s made)
  case Nil
  show ?case by simp
next
  case (Cons r rs)
  obtain c s1 m1 where p: "post_due now r (next_date r) s made = Inr (c, s1, m1)"
    using post_due_returns [of "next_date r" now r s made] Cons.prems
    by (metis list.set_intros(1) prod_cases3)
  show ?case
    using Cons.IH [of "if c \<noteq> next_date r then update_next_date c (r_id r) s1 else s1" m1] Cons.prems p
    by simp
qed

lemma for_rows_nothing_due:
  assumes "\<forall>r\<in>set rs. \<not> date_le (next_date r) now"
  shows "for_rows now rs s made = Inr (s, made)"
  using assms
  by (induction rs arbitrary: s made) (simp_all add: post_due_unfold)

lemma update_next_date_fields:
  "transactions (update_next_date c i s) = transactions s"
  "transactions_seq (update_next_date c i s) = transactions_seq s"
  "categories (update_next_date c i s) = categories s"
  "budgets (update_next_date c i s) = budgets s"
  "map r_id (recurring (update_next_date c i s)) = map r_id (recurring s)"
  by (simp_all add: update_next_date_def comp_def if_distrib [of r_id] cong: if_cong)

lemma for_rows_Inr:
  assumes "for_rows now rs s made = Inr (s', made')"
    "distinct (map r_id (recurring s))" "distinct (map r_id rs)" "set rs \<subseteq> set (recurring s)"
  shows "(\<exists>new. transactions s' = transactions s @ new \<and>
            map txn_fields new = concat (map (\<lambda>r. map (rule_occurrence r) (due_dates now r)) rs) \<and>
            made' = made + length new) \<and>
         list_all2 (\<lambda>x x'. if x \<in> set rs then advanced now x x' else x' = x) (recurring s) (recurring s') \<and>
         categories s' = categories s \<and> budgets s' = budgets s"
  using assms
proof (induction rs arbitrary: s made)
  case Nil
  then show ?case by (simp add: list_all2_refl)
next
  case (Cons r rs)
  obtain c s1 m1 where p: "post_due now r (next_date r) s made = Inr (c, s1, m1)"
    using Cons.prems(1) by (auto split: sum.splits)
  let ?upd = "\<lambda>x. if r_id x = r_id r then x\<lparr>next_date := c\<rparr> else x"
  define s2 where "s2 = (if c \<noteq> next_date r then update_next_date c (r_id r) s1 else s1)"
  have rest: "for_rows now rs s2 m1 = Inr (s', made')"
    using Cons.prems(1) p by (simp add: s2_def)
  have s1: "s1 = foldl (post_occurrence r) s (due_dates now r)"
    and m1: "m1 = made + length (due_dates now r)"
    and adv: "advanced now r (r\<lparr>next_date := c\<rparr>)"
    using post_due_Inr [OF p] by simp_all
  obtain new1 where new1: "transactions s1 = transactions s @ new1"
    "map txn_fields new1 = map (rule_occurrence r) (due_dates now r)"
    and s1_rest: "recurring s1 = recurring s" "categories s1 = categories s" "budgets s1 = budgets s"
    using foldl_post_occurrence [of r s "due_dates now r"] unfolding s1 by blast
  have r_in: "r \<in> set (recurring s)" using Cons.prems(4) by simp
  have r_notin: "\<forall>x\<in>set rs. r_id x \<noteq> r_id r"
  proof
    fix x assume "x \<in> set rs"
    then have "r_id x \<in> r_id ` set rs" by (rule imageI)
    moreover have "r_id r \<notin> r_id ` set rs" using Cons.prems(3) by simp
    ultimately show "r_id x \<noteq> r_id r" by metis
  qed
  have rec2: "recurring s2 = map ?upd (recurring s)"
  proof (cases "c = next_date r")
    case True
    have "\<forall>x\<in>set (recurring s). ?upd x = x"
    proof
      fix x assume x: "x \<in> set (recurring s)"
      show "?upd x = x"
      proof (cases "r_id x = r_id r")
        case False then show ?thesis by simp
      next
        case True
        then have "x = r"
          using x r_in Cons.prems(2) by (meson distinct_map inj_onD)
        then show ?thesis using \<open>c = next_date r\<close> by simp
      qed
    qed
    then have "map ?upd (recurring s) = recurring s"
      by (simp add: map_idI)
    then show ?thesis using True s1_rest by (simp add: s2_def)
  next
    case False
    then show ?thesis using s1_rest by (simp add: s2_def update_next_date_def)
  qed
  have ids2: "map r_id (recurring s2) = map r_id (recurring s)"
    unfolding rec2 by (simp add: comp_def if_distrib [of r_id] cong: if_cong)
  have tx2: "transactions s2 = transactions s1" "categories s2 = categories s" "budgets s2 = budgets s"
    using s1_rest by (simp_all add: s2_def update_next_date_fields)
  have sub2: "set rs \<subseteq> set (recurring s2)"
  proof
    fix x assume x: "x \<in> set rs"
    then have "x \<in> set (recurring s)" and u: "?upd x = x"
      using Cons.prems(4) r_notin by auto
    then have "?upd x \<in> ?upd ` set (recurring s)"
      by (intro imageI)
    then have "x \<in> ?upd ` set (recurring s)"
      using u by (simp only:)
    then show "x \<in> set (recurring s2)"
      unfolding rec2 by (simp only: set_map)
  qed
  have d2: "distinct (map r_id (recurring s2))"
    using Cons.prems(2) by (simp only: ids2)
  have d3: "distinct (map r_id rs)"
    using Cons.prems(3) by simp
  have IH: "(\<exists>new. transactions s' = transactions s2 @ new \<and>
            map txn_fields new = concat (map (\<lambda>r. map (rule_occurrence r) (due_dates now r)) rs) \<and>
            made' = m1 + length new) \<and>
         list_all2 (\<lambda>x x'. if x \<in> set rs then advanced now x x' else x' = x) (recurring s2) (recurring s') \<and>
         categories s' = categories s2 \<and> budgets s' = budgets s2"
    by (rule Cons.IH [OF rest d2 d3 sub2])
  then obtain new2 where new2: "transactions s' = transactions s2 @ new2"
    "map txn_fields new2 = concat (map (\<lambda>r. map (rule_occurrence r) (due_dates now r)) rs)"
    "made' = m1 + length new2"
    by blast
  have len1: "length new1 = length (due_dates now r)"
    using new1(2) by (metis length_map)
  have A: "\<exists>new. transactions s' = transactions s @ new \<and>
            map txn_fields new = concat (map (\<lambda>r. map (rule_occurrence r) (due_dates now r)) (r # rs)) \<and>
            made' = made + length new"
    apply (rule exI [of _ "new1 @ new2"])
    using new1 new2 tx2 m1 len1 by simp
  have B: "list_all2 (\<lambda>x x'. if x \<in> set (r # rs) then advanced now x x' else x' = x)
      (recurring s) (recurring s')"
  proof -
    have l: "list_all2 (\<lambda>x x'. if ?upd x \<in> set rs then advanced now (?upd x) x' else x' = ?upd x)
        (recurring s) (recurring s')"
      using IH unfolding rec2 by (simp add: list_all2_map1)
    show ?thesis
    proof (rule list.rel_mono_strong [OF l])
      fix x x' assume x: "x \<in> set (recurring s)"
        and h: "if ?upd x \<in> set rs then advanced now (?upd x) x' else x' = ?upd x"
      show "if x \<in> set (r # rs) then advanced now x x' else x' = x"
      proof (cases "r_id x = r_id r")
        case True
        then have xr: "x = r"
          using x r_in Cons.prems(2) by (meson distinct_map inj_onD)
        have "?upd x \<notin> set rs"
          using r_notin True by auto
        then have "x' = r\<lparr>next_date := c\<rparr>" using h xr by simp
        then show ?thesis using adv xr by simp
      next
        case False
        then have u: "?upd x = x" by simp
        have n: "x \<noteq> r" using False by auto
        have "if x \<in> set rs then advanced now x x' else x' = x"
          using h unfolding u .
        then show ?thesis using n by simp
      qed
    qed
  qed
  show ?case
    using A B IH tx2 by simp
qed

lemma date_lt_iff: "date_lt a b \<longleftrightarrow> \<not> date_le b a"
  by (auto simp: date_lt_def date_le_def)

lemma apply_recurring_Inr:
  assumes "apply_recurring now s = Inr (made, s')" "distinct (map r_id (recurring s))"
  shows "\<exists>new. transactions s' = transactions s @ new \<and>
           map txn_fields new = concat (map (\<lambda>r. map (rule_occurrence r) (due_dates now r)) (recurring s)) \<and>
           made = length new \<and>
           list_all2 (advanced now) (recurring s) (recurring s') \<and>
           categories s' = categories s \<and> budgets s' = budgets s"
proof -
  have f: "for_rows now (recurring s) s 0 = Inr (s', made)"
    using assms(1) by (auto simp: apply_recurring_def split: sum.splits)
  note r = for_rows_Inr [OF f assms(2) assms(2) subset_refl]
  have "list_all2 (advanced now) (recurring s) (recurring s')"
    using r by (auto elim: list.rel_mono_strong)
  then show ?thesis
    using r by auto
qed

lemma apply_recurring_returns:
  assumes "\<forall>r\<in>set (recurring s). valid_date (next_date r)" "year now < 9999"
  shows "\<exists>made s'. apply_recurring now s = Inr (made, s')"
proof -
  obtain s' made where "for_rows now (recurring s) s 0 = Inr (s', made)"
    using for_rows_returns [OF assms, of s 0] by auto
  then show ?thesis
    by (simp add: apply_recurring_def)
qed

lemmas date_eval = date_le_def date_lt_def add_months_unfold date_new_def valid_date_def c_int_def
  days_in_month_def is_leap_def

lemmas poster_eval = apply_recurring_def post_due_unfold post_occurrence_def insert_transaction_def
  update_next_date_def

subsection \<open>The claims about the recurring poster\<close>

text \<open>
  C1 (as amended). Let the rows of the rule table have distinct ids. When \<open>now\<close> lies
  before the year 9999 (and the stored dates are dates of the calendar) the pass returns.
  Whenever it returns, the rows it has added to the transactions are exactly these, rule
  after rule in table order: for a rule with interval \<^verbatim>\<open>monthly\<close> one row for each date of
  its schedule \<open>next_date\<close>, \<^verbatim>\<open>add_months(next_date, 1)\<close>, ... that is on or before \<open>now\<close>
  (the bound included), and for a rule with another interval one row if its \<open>next_date\<close>
  is on or before \<open>now\<close> and none otherwise; each row has the date of the occurrence, the
  type, category, description and amount of the rule and the account \<^verbatim>\<open>Recurring\<close>. The
  count returned is the number of rows added, and the stored row of every monthly rule
  differs from the old one at most in \<open>next_date\<close>, which is strictly after \<open>now\<close>.
\<close>

theorem apply_recurring_monthly:
  assumes "distinct (map r_id (recurring s))"
  shows "(year now < 9999 \<and> (\<forall>r\<in>set (recurring s). valid_date (next_date r)) \<longrightarrow>
            (\<exists>made s'. apply_recurring now s = Inr (made, s'))) \<and>
         (\<forall>made s'. apply_recurring now s = Inr (made, s') \<longrightarrow>
            (\<exists>new. transactions s' = transactions s @ new \<and> made = length new \<and>
               map txn_fields new =
                 concat (map (\<lambda>r. map (rule_occurrence r)
                    (if interval r = ''monthly'' then scheduled now (next_date r)
                     else if date_le (next_date r) now then [next_date r] else []))
                   (recurring s))) \<and>
            list_all2 (\<lambda>r r'. interval r = ''monthly'' \<longrightarrow>
                r'\<lparr>next_date := next_date r\<rparr> = r \<and> date_lt now (next_date r'))
              (recurring s) (recurring s'))"
proof (intro conjI allI impI)
  assume "year now < 9999 \<and> (\<forall>r\<in>set (recurring s). valid_date (next_date r))"
  then show "\<exists>made s'. apply_recurring now s = Inr (made, s')"
    using apply_recurring_returns by blast
next
  fix made s'
  assume run: "apply_recurring now s = Inr (made, s')"
  obtain new where new: "transactions s' = transactions s @ new"
    "map txn_fields new = concat (map (\<lambda>r. map (rule_occurrence r) (due_dates now r)) (recurring s))"
    "made = length new"
    using apply_recurring_Inr [OF run assms] by blast
  show "\<exists>new. transactions s' = transactions s @ new \<and> made = length new \<and>
      map txn_fields new =
        concat (map (\<lambda>r. map (rule_occurrence r)
           (if interval r = ''monthly'' then scheduled now (next_date r)
            else if date_le (next_date r) now then [next_date r] else []))
          (recurring s))"
    using new unfolding due_dates_def by blast
next
  fix made s'
  assume run: "apply_recurring now s = Inr (made, s')"
  have "list_all2 (advanced now) (recurring s) (recurring s')"
    using apply_recurring_Inr [OF run assms] by blast
  then show "list_all2 (\<lambda>r r'. interval r = ''monthly'' \<longrightarrow>
      r'\<lparr>next_date := next_date r\<rparr> = r \<and> date_lt now (next_date r')) (recurring s) (recurring s')"
    by (rule list_all2_mono) (simp add: advanced_def date_lt_iff)
qed

theorem apply_recurring_monthly_witness:
  "\<exists>made s' new.
     apply_recurring \<lparr>year = 2024, month = 3, day = 31\<rparr>
       \<lparr>transactions = [], transactions_seq = 0, categories = [], budgets = [],
        recurring = [\<lparr>r_id = 7, r_ttype = Income, r_category = ''Salary'', r_description = Some ''pay'',
          r_amount = 1000, interval = ''monthly'', next_date = \<lparr>year = 2024, month = 3, day = 31\<rparr>\<rparr>]\<rparr>
       = Inr (made, s') \<and>
     transactions s' = new \<and> made = 1 \<and>
     map txn_fields new =
       [(\<lparr>year = 2024, month = 3, day = 31\<rparr>, Income, ''Salary'', Some ''pay'', 1000, Some ''Recurring'')] \<and>
     list_all2 (\<lambda>r r'. date_lt \<lparr>year = 2024, month = 3, day = 31\<rparr> (next_date r'))
       [\<lparr>r_id = 7, r_ttype = Income, r_category = ''Salary'', r_description = Some ''pay'',
          r_amount = 1000, interval = ''monthly'', next_date = \<lparr>year = 2024, month = 3, day = 31\<rparr>\<rparr>]
       (recurring s')"
proof -
  let ?now = "\<lparr>year = 2024, month = 3, day = 31\<rparr>"
  let ?r = "\<lparr>r_id = 7, r_ttype = Income, r_category = ''Salary'', r_description = Some ''pay'',
          r_amount = 1000, interval = ''monthly'', next_date = ?now\<rparr>"
  let ?s = "\<lparr>transactions = [], transactions_seq = 0, categories = [], budgets = [], recurring = [?r]\<rparr>"
  have d: "distinct (map r_id (recurring ?s))" by simp
  note t = apply_recurring_monthly [OF d, of ?now]
  have v: "year ?now < 9999 \<and> (\<forall>r\<in>set (recurring ?s). valid_date (next_date r))"
    by (simp add: valid_date_def days_in_month_def)
  obtain made s' where run: "apply_recurring ?now ?s = Inr (made, s')"
    using t v by blast
  obtain new where new: "transactions s' = transactions ?s @ new" "made = length new"
      "map txn_fields new =
         concat (map (\<lambda>r. map (rule_occurrence r)
            (if interval r = ''monthly'' then scheduled ?now (next_date r)
             else if date_le (next_date r) ?now then [next_date r] else []))
           (recurring ?s))"
    and adv: "list_all2 (\<lambda>r r'. interval r = ''monthly'' \<longrightarrow>
        r'\<lparr>next_date := next_date r\<rparr> = r \<and> date_lt ?now (next_date r')) (recurring ?s) (recurring s')"
    using t run by blast
  have sch: "scheduled ?now ?now = [?now]"
    by (simp add: scheduled.simps date_eval)
  have f: "map txn_fields new = [(?now, Income, ''Salary'', Some ''pay'', 1000, Some ''Recurring'')]"
    using new(3) by (simp add: sch rule_occurrence_def)
  then have "length (map txn_fields new) = 1" by simp
  then have m: "made = 1" using new(2) by simp
  have l: "list_all2 (\<lambda>r r'. date_lt ?now (next_date r')) [?r] (recurring s')"
    using adv by (auto elim!: list.rel_mono_strong)
  show ?thesis
    using run new(1) m f l by auto
qed

text \<open>
  The claim as stated fails for a monthly occurrence due in December 9999: the month
  after it is not a date, \<^verbatim>\<open>add_months\<close> raises and the pass ends in the exception, before
  the commit.
\<close>

theorem apply_recurring_december_9999:
  "apply_recurring \<lparr>year = 9999, month = 12, day = 31\<rparr>
     \<lparr>transactions = [], transactions_seq = 0, categories = [], budgets = [],
      recurring = [\<lparr>r_id = 1, r_ttype = Expense, r_category = ''Rent'', r_description = None,
        r_amount = 500, interval = ''monthly'', next_date = \<lparr>year = 9999, month = 12, day = 31\<rparr>\<rparr>]\<rparr>
   = Inl ValueError"
  by (simp add: poster_eval date_eval)

text \<open>
  C2. A monthly rule with \<open>next_date\<close> 2024-01-15 and \<open>now\<close> 2024-04-10: the pass posts
  three transactions, dated 2024-01-15, 2024-02-15 and 2024-03-15, returns 3 and stores
  2024-04-15 as the rule's \<open>next_date\<close>.
\<close>

text \<open>
  C2. A monthly rule with \<open>next_date\<close> 2024-01-15 and \<open>now\<close> 2024-04-10: the pass posts
  three transactions, dated 2024-01-15, 2024-02-15 and 2024-03-15, returns 3 and stores
  2024-04-15 as the rule's \<open>next_date\<close>.
\<close>

theorem apply_recurring_catch_up:
  "apply_recurring \<lparr>year = 2024, month = 4, day = 10\<rparr>
     (s\<lparr>recurring := [r\<lparr>interval := ''monthly'', next_date := \<lparr>year = 2024, month = 1, day = 15\<rparr>\<rparr>]\<rparr>) =
   Inr (3, s\<lparr>transactions := transactions s @
        [\<lparr>t_id = transactions_seq s + 1, t_date = \<lparr>year = 2024, month = 1, day = 15\<rparr>,
          t_ttype = r_ttype r, t_category = r_category r, t_description = r_description r,
          t_amount = r_amount r, t_account = Some ''Recurring''\<rparr>,
         \<lparr>t_id = transactions_seq s + 2, t_date = \<lparr>year = 2024, month = 2, day = 15\<rparr>,
          t_ttype = r_ttype r, t_category = r_category r, t_description = r_description r,
          t_amount = r_amount r, t_account = Some ''Recurring''\<rparr>,
         \<lparr>t_id = transactions_seq s + 3, t_date = \<lparr>year = 2024, month = 3, day = 15\<rparr>,
          t_ttype = r_ttype r, t_category = r_category r, t_description = r_description r,
          t_amount = r_amount r, t_account = Some ''Recurring''\<rparr>],
      transactions_seq := transactions_seq s + 3,
      recurring := [r\<lparr>interval := ''monthly'', next_date := \<lparr>year = 2024, month = 4, day = 15\<rparr>\<rparr>]\<rparr>)"
  by (simp add: poster_eval date_eval)

text \<open>
  C3 (as amended). When every rule has the interval \<^verbatim>\<open>monthly\<close> (and the ids are
  distinct), a second pass with the same \<open>now\<close>, right after a first pass that returned,
  returns 0 and leaves the store as it is.
\<close>

text \<open>
  C3 (as amended). When no rule with an interval other than \<^verbatim>\<open>monthly\<close> is due at \<open>now\<close>
  (and the ids are distinct), a second pass with the same \<open>now\<close>, right after a first
  pass that returned, returns 0 and leaves the store as it is.
\<close>

theorem apply_recurring_idempotent:
  assumes "distinct (map r_id (recurring s))"
    "\<forall>r\<in>set (recurring s). interval r \<noteq> ''monthly'' \<longrightarrow> \<not> date_le (next_date r) now"
    "apply_recurring now s = Inr (n, s')"
  shows "apply_recurring now s' = Inr (0, s')"
proof -
  have l: "list_all2 (advanced now) (recurring s) (recurring s')"
    using apply_recurring_Inr [OF assms(3) assms(1)] by blast
  have "\<forall>r'\<in>set (recurring s'). \<not> date_le (next_date r') now"
  proof
    fix r' assume "r' \<in> set (recurring s')"
    then obtain r where r: "r \<in> set (recurring s)" "advanced now r r'"
      using l by (metis in_set_conv_nth list_all2_conv_all_nth)
    show "\<not> date_le (next_date r') now"
    proof (cases "interval r = ''monthly''")
      case True
      then show ?thesis using r(2) by (simp add: advanced_def)
    next
      case False
      then have "r' = r" "\<not> date_le (next_date r) now"
        using r assms(2) by (simp_all add: advanced_def)
      then show ?thesis by simp
    qed
  qed
  then have "for_rows now (recurring s') s' 0 = Inr (s', 0)"
    by (rule for_rows_nothing_due)
  then show ?thesis
    by (simp add: apply_recurring_def)
qed

theorem apply_recurring_idempotent_witness:
  "\<exists>n s'.
     apply_recurring \<lparr>year = 2024, month = 3, day = 1\<rparr>
       \<lparr>transactions = [], transactions_seq = 0, categories = [], budgets = [],
        recurring = [\<lparr>r_id = 1, r_ttype = Expense, r_category = ''Rent'', r_description = None,
          r_amount = 500, interval = ''monthly'', next_date = \<lparr>year = 2024, month = 1, day = 31\<rparr>\<rparr>,
         \<lparr>r_id = 2, r_ttype = Expense, r_category = ''Gym'', r_description = None,
          r_amount = 20, interval = ''weekly'', next_date = \<lparr>year = 2024, month = 3, day = 4\<rparr>\<rparr>]\<rparr>
       = Inr (n, s') \<and>
     apply_recurring \<lparr>year = 2024, month = 3, day = 1\<rparr> s' = Inr (0, s')"
proof -
  let ?now = "\<lparr>year = 2024, month = 3, day = 1\<rparr>"
  let ?s = "\<lparr>transactions = [], transactions_seq = 0, categories = [], budgets = [],
        recurring = [\<lparr>r_id = 1, r_ttype = Expense, r_category = ''Rent'', r_description = None,
          r_amount = 500, interval = ''monthly'', next_date = \<lparr>year = 2024, month = 1, day = 31\<rparr>\<rparr>,
         \<lparr>r_id = 2, r_ttype = Expense, r_category = ''Gym'', r_description = None,
          r_amount = 20, interval = ''weekly'', next_date = \<lparr>year = 2024, month = 3, day = 4\<rparr>\<rparr>]\<rparr>"
  have d: "distinct (map r_id (recurring ?s))" by simp
  have m: "\<forall>r\<in>set (recurring ?s). interval r \<noteq> ''monthly'' \<longrightarrow> \<not> date_le (next_date r) ?now"
    by (simp add: date_le_def)
  have "\<forall>r\<in>set (recurring ?s). valid_date (next_date r)" "year ?now < 9999"
    by (simp_all add: valid_date_def days_in_month_def)
  then obtain n s' where run: "apply_recurring ?now ?s = Inr (n, s')"
    using apply_recurring_returns by blast
  show ?thesis
    using run apply_recurring_idempotent [OF d m run] by blast
qed

text \<open>
  The claim as stated fails for a rule with another interval that is due: the first pass
  posts one transaction and leaves \<open>next_date\<close> alone, so the second pass posts one more.
\<close>

theorem apply_recurring_weekly_posts_again:
  "apply_recurring \<lparr>year = 2024, month = 4, day = 10\<rparr>
     \<lparr>transactions = [], transactions_seq = 0, categories = [], budgets = [],
      recurring = [\<lparr>r_id = 1, r_ttype = Expense, r_category = ''Gym'', r_description = None,
        r_amount = 20, interval = ''weekly'', next_date = \<lparr>year = 2024, month = 1, day = 15\<rparr>\<rparr>]\<rparr>
   = Inr (1,
     \<lparr>transactions = [\<lparr>t_id = 1, t_date = \<lparr>year = 2024, month = 1, day = 15\<rparr>, t_ttype = Expense,
        t_category = ''Gym'', t_description = None, t_amount = 20, t_account = Some ''Recurring''\<rparr>],
      transactions_seq = 1, categories = [], budgets = [],
      recurring = [\<lparr>r_id = 1, r_ttype = Expense, r_category = ''Gym'', r_description = None,
        r_amount = 20, interval = ''weekly'', next_date = \<lparr>year = 2024, month = 1, day = 15\<rparr>\<rparr>]\<rparr>) \<and>
   apply_recurring \<lparr>year = 2024, month = 4, day = 10\<rparr>
     \<lparr>transactions = [\<lparr>t_id = 1, t_date = \<lparr>year = 2024, month = 1, day = 15\<rparr>, t_ttype = Expense,
        t_category = ''Gym'', t_description = None, t_amount = 20, t_account = Some ''Recurring''\<rparr>],
      transactions_seq = 1, categories = [], budgets = [],
      recurring = [\<lparr>r_id = 1, r_ttype = Expense, r_category = ''Gym'', r_description = None,
        r_amount = 20, interval = ''weekly'', next_date = \<lparr>year = 2024, month = 1, day = 15\<rparr>\<rparr>]\<rparr>
   = Inr (1,
     \<lparr>transactions = [\<lparr>t_id = 1, t_date = \<lparr>year = 2024, month = 1, day = 15\<rparr>, t_ttype = Expense,
        t_category = ''Gym'', t_description = None, t_amount = 20, t_account = Some ''Recurring''\<rparr>,
       \<lparr>t_id = 2, t_date = \<lparr>year = 2024, month = 1, day = 15\<rparr>, t_ttype = Expense,
        t_category = ''Gym'', t_description = None, t_amount = 20, t_account = Some ''Recurring''\<rparr>],
      transactions_seq = 2, categories = [], budgets = [],
      recurring = [\<lparr>r_id = 1, r_ttype = Expense, r_category = ''Gym'', r_description = None,
        r_amount = 20, interval = ''weekly'', next_date = \<lparr>year = 2024, month = 1, day = 15\<rparr>\<rparr>]\<rparr>)"
  by (simp add: poster_eval date_eval)

text \<open>
  C4. For a rule whose interval is not \<^verbatim>\<open>monthly\<close> and whose \<open>next_date\<close> is on or
  before \<open>now\<close>, the loop over the rule posts exactly one transaction and stops at once,
  at the date it started from; and in every pass that returns (the ids being distinct),
  the rows added for such a rule are exactly that one row and the stored row of every
  rule with an interval other than \<^verbatim>\<open>monthly\<close> is unchanged.
\<close>

text \<open>
  C4 (as amended). For a rule whose interval is not \<^verbatim>\<open>monthly\<close> and whose \<open>next_date\<close> is
  on or before \<open>now\<close>, the loop over the rule posts exactly one transaction and stops at
  once, at the date it started from. The pass returns when \<open>now\<close> lies before the year
  9999; and in every pass that returns (the ids being distinct) the rows added are
  exactly, rule after rule in table order, that one row for each such rule, no row for a
  rule with another interval than \<^verbatim>\<open>monthly\<close> that is not due, and the rows of the schedule
  for a monthly rule; the stored row of every rule with an interval other than
  \<^verbatim>\<open>monthly\<close> is unchanged.
\<close>

theorem apply_recurring_unsupported_interval:
  assumes "distinct (map r_id (recurring s))"
  shows "(\<forall>r s0 made. interval r \<noteq> ''monthly'' \<and> date_le (next_date r) now \<longrightarrow>
            post_due now r (next_date r) s0 made =
              Inr (next_date r, post_occurrence r s0 (next_date r), made + 1)) \<and>
         (year now < 9999 \<and> (\<forall>r\<in>set (recurring s). valid_date (next_date r)) \<longrightarrow>
            (\<exists>n s'. apply_recurring now s = Inr (n, s'))) \<and>
         (\<forall>n s'. apply_recurring now s = Inr (n, s') \<longrightarrow>
            (\<exists>new. transactions s' = transactions s @ new \<and> n = length new \<and>
               map txn_fields new =
                 concat (map (\<lambda>r. map (rule_occurrence r)
                    (if interval r = ''monthly'' then scheduled now (next_date r)
                     else if date_le (next_date r) now then [next_date r] else []))
                   (recurring s))) \<and>
            list_all2 (\<lambda>r r'. interval r \<noteq> ''monthly'' \<longrightarrow> r' = r) (recurring s) (recurring s'))"
proof (intro conjI allI impI)
  fix r :: rule and s0 :: store and made :: nat
  assume "interval r \<noteq> ''monthly'' \<and> date_le (next_date r) now"
  then show "post_due now r (next_date r) s0 made =
      Inr (next_date r, post_occurrence r s0 (next_date r), made + 1)"
    by (simp add: post_due_other)
next
  assume "year now < 9999 \<and> (\<forall>r\<in>set (recurring s). valid_date (next_date r))"
  then show "\<exists>n s'. apply_recurring now s = Inr (n, s')"
    using apply_recurring_returns by blast
next
  fix n s'
  assume run: "apply_recurring now s = Inr (n, s')"
  obtain new where new: "transactions s' = transactions s @ new"
    "map txn_fields new = concat (map (\<lambda>r. map (rule_occurrence r) (due_dates now r)) (recurring s))"
    "n = length new"
    using apply_recurring_Inr [OF run assms] by blast
  show "\<exists>new. transactions s' = transactions s @ new \<and> n = length new \<and>
      map txn_fields new =
        concat (map (\<lambda>r. map (rule_occurrence r)
           (if interval r = ''monthly'' then scheduled now (next_date r)
            else if date_le (next_date r) now then [next_date r] else []))
          (recurring s))"
    using new unfolding due_dates_def by blast
next
  fix n s'
  assume run: "apply_recurring now s = Inr (n, s')"
  have "list_all2 (advanced now) (recurring s) (recurring s')"
    using apply_recurring_Inr [OF run assms] by blast
  then show "list_all2 (\<lambda>r r'. interval r \<noteq> ''monthly'' \<longrightarrow> r' = r) (recurring s) (recurring s')"
    by (rule list_all2_mono) (simp add: advanced_def)
qed

theorem apply_recurring_unsupported_interval_witness:
  "post_due \<lparr>year = 2024, month = 6, day = 1\<rparr>
     \<lparr>r_id = 3, r_ttype = Expense, r_category = ''Bus'', r_description = Some ''pass'',
       r_amount = 45, interval = ''yearly'', next_date = \<lparr>year = 2024, month = 5, day = 20\<rparr>\<rparr>
     \<lparr>year = 2024, month = 5, day = 20\<rparr>
     \<lparr>transactions = [], transactions_seq = 0, categories = [], budgets = [],
      recurring = [\<lparr>r_id = 3, r_ttype = Expense, r_category = ''Bus'', r_description = Some ''pass'',
       r_amount = 45, interval = ''yearly'', next_date = \<lparr>year = 2024, month = 5, day = 20\<rparr>\<rparr>]\<rparr> 0
   = Inr (\<lparr>year = 2024, month = 5, day = 20\<rparr>,
     \<lparr>transactions = [\<lparr>t_id = 1, t_date = \<lparr>year = 2024, month = 5, day = 20\<rparr>, t_ttype = Expense,
        t_category = ''Bus'', t_description = Some ''pass'', t_amount = 45, t_account = Some ''Recurring''\<rparr>],
      transactions_seq = 1, categories = [], budgets = [],
      recurring = [\<lparr>r_id = 3, r_ttype = Expense, r_category = ''Bus'', r_description = Some ''pass'',
       r_amount = 45, interval = ''yearly'', next_date = \<lparr>year = 2024, month = 5, day = 20\<rparr>\<rparr>]\<rparr>, 1) \<and>
   (\<exists>n s' new.
      apply_recurring \<lparr>year = 2024, month = 6, day = 1\<rparr>
        \<lparr>transactions = [], transactions_seq = 0, categories = [], budgets = [],
         recurring = [\<lparr>r_id = 3, r_ttype = Expense, r_category = ''Bus'', r_description = Some ''pass'',
          r_amount = 45, interval = ''yearly'', next_date = \<lparr>year = 2024, month = 5, day = 20\<rparr>\<rparr>]\<rparr>
        = Inr (n, s') \<and>
      transactions s' = new \<and> n = length new \<and>
      map txn_fields new =
        [(\<lparr>year = 2024, month = 5, day = 20\<rparr>, Expense, ''Bus'', Some ''pass'', 45, Some ''Recurring'')] \<and>
      recurring s' = [\<lparr>r_id = 3, r_ttype = Expense, r_category = ''Bus'', r_description = Some ''pass'',
          r_amount = 45, interval = ''yearly'', next_date = \<lparr>year = 2024, month = 5, day = 20\<rparr>\<rparr>])"
proof -
  let ?now = "\<lparr>year = 2024, month = 6, day = 1\<rparr>"
  let ?r = "\<lparr>r_id = 3, r_ttype = Expense, r_category = ''Bus'', r_description = Some ''pass'',
       r_amount = 45, interval = ''yearly'', next_date = \<lparr>year = 2024, month = 5, day = 20\<rparr>\<rparr>"
  let ?s = "\<lparr>transactions = [], transactions_seq = 0, categories = [], budgets = [], recurring = [?r]\<rparr>"
  have d: "distinct (map r_id (recurring ?s))" by simp
  note t = apply_recurring_unsupported_interval [OF d, of ?now]
  have h: "interval ?r \<noteq> ''monthly'' \<and> date_le (next_date ?r) ?now"
    by (simp add: date_le_def)
  have a: "post_due ?now ?r (next_date ?r) ?s 0 = Inr (next_date ?r, post_occurrence ?r ?s (next_date ?r), 0 + 1)"
    using t h by blast
  have v: "year ?now < 9999 \<and> (\<forall>r\<in>set (recurring ?s). valid_date (next_date r))"
    by (simp add: valid_date_def days_in_month_def)
  obtain n s' where run: "apply_recurring ?now ?s = Inr (n, s')"
    using t v by blast
  obtain new where new: "transactions s' = transactions ?s @ new" "n = length new"
      "map txn_fields new =
         concat (map (\<lambda>r. map (rule_occurrence r)
            (if interval r = ''monthly'' then scheduled ?now (next_date r)
             else if date_le (next_date r) ?now then [next_date r] else []))
           (recurring ?s))"
    and same: "list_all2 (\<lambda>r r'. interval r \<noteq> ''monthly'' \<longrightarrow> r' = r) (recurring ?s) (recurring s')"
    using t run by blast
  have f: "map txn_fields new = [(\<lparr>year = 2024, month = 5, day = 20\<rparr>, Expense, ''Bus'', Some ''pass'', 45, Some ''Recurring'')]"
    using new(3) h by (simp add: rule_occurrence_def)
  have r: "recurring s' = [?r]"
    using same by (auto simp: list_all2_Cons1)
  show ?thesis
    using a run new(1,2) f r by (simp add: post_occurrence_def insert_transaction_def)
qed

text \<open>
  The claim as stated fails when another rule makes the pass raise: with a monthly rule
  due on 9999-12-31 in the table, the pass ends in the exception before the commit, and
  nothing is posted for the due weekly rule.
\<close>

theorem apply_recurring_weekly_lost_in_december_9999:
  "apply_recurring \<lparr>year = 9999, month = 12, day = 31\<rparr>
     \<lparr>transactions = [], transactions_seq = 0, categories = [], budgets = [],
      recurring = [\<lparr>r_id = 1, r_ttype = Expense, r_category = ''Gym'', r_description = None,
        r_amount = 20, interval = ''weekly'', next_date = \<lparr>year = 9999, month = 12, day = 1\<rparr>\<rparr>,
       \<lparr>r_id = 2, r_ttype = Expense, r_category = ''Rent'', r_description = None,
        r_amount = 500, interval = ''monthly'', next_date = \<lparr>year = 9999, month = 12, day = 31\<rparr>\<rparr>]\<rparr>
   = Inl ValueError"
  by (simp add: poster_eval date_eval)

section \<open>Query helpers and the managers of categories and budgets\<close>









text \<open>
  The \<^verbatim>\<open>filters\<close> dictionary of \<^verbatim>\<open>df_transactions\<close> (app.py, lines 185 to 218): a key that
  is absent or \<^verbatim>\<open>None\<close> is \<open>None\<close>. The \<^verbatim>\<open>where\<close> list is built clause by clause as in
  the source (the truth tests of the source: a date is always true, a string when it is
  not empty). The comparison of the date column with an ISO text is the comparison of
  the dates, and \<^verbatim>\<open>ttype = ?\<close> and \<^verbatim>\<open>category = ?\<close> compare texts. The engine tests the
  clauses of a row from left to right and stops at the first that fails; an error of a
  clause on any row ends the query, and \<^verbatim>\<open>pd.read_sql_query\<close> raises. It raises as well,
  before any row is read, when a text among \<^verbatim>\<open>params\<close> has more than 1000000000 bytes,
  which the engine refuses to bind (the ISO texts of the dates have 10). The rows that
  satisfy all clauses are ordered by date and id, both descending.
\<close>

record filters =
  date_from :: "date option"
  date_to :: "date option"
  f_ttype :: "string option"
  f_category :: "string option"
  min_amt :: "real option"
  max_amt :: "real option"
  q :: "string option"









text \<open>
  \<^verbatim>\<open>delete_category\<close> (lines 233 to 237) and \<^verbatim>\<open>set_budget\<close> (lines 240 to 246), an insert
  that turns into an update of the amount when a row with the month and category exists.
\<close>

definition delete_category :: "string \<Rightarrow> store \<Rightarrow> store" where
  "delete_category name s = s\<lparr>categories := filter (\<lambda>n. n \<noteq> name) (categories s)\<rparr>"

definition set_budget :: "string \<Rightarrow> string \<Rightarrow> real \<Rightarrow> store \<Rightarrow> store" where
  "set_budget m c a s =
     (if \<exists>b\<in>set (budgets s). b_month b = m \<and> b_category b = c then
        s\<lparr>budgets := map (\<lambda>b. if b_month b = m \<and> b_category b = c then b\<lparr>b_amount := a\<rparr> else b)
                        (budgets s)\<rparr>
      else s\<lparr>budgets := budgets s @ [\<lparr>b_month = m, b_category = c, b_amount = a\<rparr>]\<rparr>)"



text \<open>
  The constraint \<^verbatim>\<open>UNIQUE(month, category)\<close> of the budgets table.
\<close>

definition budgets_unique :: "store \<Rightarrow> bool" where
  "budgets_unique s \<longleftrightarrow> distinct (map (\<lambda>b. (b_month b, b_category b)) (budgets s))"

subsection \<open>Facts about the pattern match\<close>










subsection \<open>Facts about the query and the budget upsert\<close>













lemma set_budget_update:
  assumes "\<exists>b\<in>set (budgets s). b_month b = m \<and> b_category b = c"
  shows "set_budget m c a s =
     s\<lparr>budgets := map (\<lambda>b. if b_month b = m \<and> b_category b = c then b\<lparr>b_amount := a\<rparr> else b)
                        (budgets s)\<rparr>"
  unfolding set_budget_def using assms by (rule if_P)

lemma set_budget_insert:
  assumes "\<not> (\<exists>b\<in>set (budgets s). b_month b = m \<and> b_category b = c)"
  shows "set_budget m c a s = s\<lparr>budgets := budgets s @ [\<lparr>b_month = m, b_category = c, b_amount = a\<rparr>]\<rparr>"
  unfolding set_budget_def using assms by (rule if_not_P)

lemma update_amount_keys:
  "map (\<lambda>b. (b_month b, b_category b))
      (map (\<lambda>b. if b_month b = m \<and> b_category b = c then b\<lparr>b_amount := a\<rparr> else b) bs) =
   map (\<lambda>b. (b_month b, b_category b)) bs"
  by (induction bs) auto

lemma update_amount_filter:
  "filter (\<lambda>b. b_month b = m \<and> b_category b = c)
      (map (\<lambda>b. if b_month b = m \<and> b_category b = c then b\<lparr>b_amount := a\<rparr> else b) bs) =
   map (\<lambda>b. b\<lparr>b_amount := a\<rparr>) (filter (\<lambda>b. b_month b = m \<and> b_category b = c) bs)"
  by (induction bs) auto

lemma set_budget_unique:
  assumes "budgets_unique s"
  shows "budgets_unique (set_budget m c a s)"
proof (cases "\<exists>b\<in>set (budgets s). b_month b = m \<and> b_category b = c")
  case True
  have e: "budgets (set_budget m c a s) =
      map (\<lambda>b. if b_month b = m \<and> b_category b = c then b\<lparr>b_amount := a\<rparr> else b) (budgets s)"
    unfolding set_budget_update [OF True] by simp
  show ?thesis
    using assms unfolding budgets_unique_def e update_amount_keys .
next
  case False
  then have "(m, c) \<notin> set (map (\<lambda>b. (b_month b, b_category b)) (budgets s))"
    by auto
  then show ?thesis
    using assms unfolding set_budget_insert [OF False] budgets_unique_def
    by simp
qed

lemma set_budget_calls_unique:
  "budgets_unique s \<Longrightarrow> budgets_unique (foldl (\<lambda>s (m, c, a). set_budget m c a s) s calls)"
  by (induction calls arbitrary: s) (auto simp: set_budget_unique)

lemma filter_distinct_key:
  assumes "distinct (map f xs)" "x \<in> set xs"
  shows "filter (\<lambda>y. f y = f x) xs = [x]"
  using assms
proof (induction xs)
  case Nil
  then show ?case by simp
next
  case (Cons y ys)
  show ?case
  proof (cases "y = x")
    case True
    have "f x \<notin> f ` set ys"
      using Cons.prems(1) True by simp
    then have "\<forall>y\<in>set ys. f y \<noteq> f x"
      by (metis imageI)
    then have "filter (\<lambda>y. f y = f x) ys = []"
      by (simp add: filter_empty_conv)
    then show ?thesis using True by simp
  next
    case False
    then have "x \<in> set ys" using Cons.prems(2) by simp
    moreover have "f y \<noteq> f x"
      using Cons.prems(1) \<open>x \<in> set ys\<close> by auto
    ultimately show ?thesis using Cons by simp
  qed
qed

lemma set_budget_row:
  assumes "budgets_unique s"
  shows "filter (\<lambda>b. b_month b = m \<and> b_category b = c) (budgets (set_budget m c a s)) =
     [\<lparr>b_month = m, b_category = c, b_amount = a\<rparr>]"
proof (cases "\<exists>b\<in>set (budgets s). b_month b = m \<and> b_category b = c")
  case False
  then have "filter (\<lambda>b. b_month b = m \<and> b_category b = c) (budgets s) = []"
    by (auto simp: filter_empty_conv)
  then show ?thesis
    unfolding set_budget_insert [OF False] by simp
next
  case True
  then obtain b where b: "b \<in> set (budgets s)" "b_month b = m" "b_category b = c"
    by blast
  let ?upd = "\<lambda>b. if b_month b = m \<and> b_category b = c then b\<lparr>b_amount := a\<rparr> else b"
  let ?f = "\<lambda>b. (b_month b, b_category b)"
  have k: "(\<lambda>y. b_month y = m \<and> b_category y = c) = (\<lambda>y. ?f y = ?f b)"
    using b by auto
  have one: "filter (\<lambda>b. b_month b = m \<and> b_category b = c) (budgets s) = [b]"
    unfolding k using assms b(1) unfolding budgets_unique_def by (rule filter_distinct_key)
  have "filter (\<lambda>b. b_month b = m \<and> b_category b = c) (map ?upd (budgets s)) = [b\<lparr>b_amount := a\<rparr>]"
    unfolding update_amount_filter one by simp
  moreover have "b\<lparr>b_amount := a\<rparr> = \<lparr>b_month = m, b_category = c, b_amount = a\<rparr>"
    using b(2,3) by (cases b) simp
  ultimately show ?thesis
    unfolding set_budget_update [OF True] by simp
qed

subsection \<open>The claims about the query, the categories and the budgets\<close>




text \<open>
  C9. \<^verbatim>\<open>delete_category(c)\<close> removes the label \<open>c\<close> from the categories and nothing else:
  the transactions, those of category \<open>c\<close> among them, the budgets and the recurring rules
  are as before.
\<close>

theorem delete_category_keeps_transactions:
  "set (categories (delete_category c s)) = set (categories s) - {c} \<and>
   transactions (delete_category c s) = transactions s \<and>
   transactions_seq (delete_category c s) = transactions_seq s \<and>
   budgets (delete_category c s) = budgets s \<and>
   recurring (delete_category c s) = recurring s"
  by (auto simp: delete_category_def)

text \<open>
  C10. Starting from a budgets table with at most one row for each month and category
  (the empty table of \<^verbatim>\<open>init_db\<close> is one), every sequence of \<^verbatim>\<open>set_budget\<close> calls leaves
  at most one row for each pair; and two calls for the same month and category, with the
  amounts \<open>a1\<close> and then \<open>a2\<close>, leave exactly one row for the pair, which holds \<open>a2\<close>.
\<close>

theorem set_budget_upsert:
  assumes "budgets_unique s"
  shows "budgets_unique (foldl (\<lambda>s (m, c, a). set_budget m c a s) s calls) \<and>
         filter (\<lambda>b. b_month b = m \<and> b_category b = c)
           (budgets (set_budget m c a2 (set_budget m c a1 s))) =
         [\<lparr>b_month = m, b_category = c, b_amount = a2\<rparr>]"
  using set_budget_calls_unique [OF assms] set_budget_row [OF set_budget_unique [OF assms]]
  by blast

theorem set_budget_upsert_witness:
  "budgets_unique
     (foldl (\<lambda>s (m, c, a). set_budget m c a s)
        \<lparr>transactions = [], transactions_seq = 0, categories = [], budgets = [], recurring = []\<rparr>
        [(''2024-03'', ''Food'', 1000), (''2024-04'', ''Food'', 900), (''2024-03'', ''Food'', 1200)]) \<and>
   filter (\<lambda>b. b_month b = ''2024-03'' \<and> b_category b = ''Food'')
     (budgets (set_budget ''2024-03'' ''Food'' 1200 (set_budget ''2024-03'' ''Food'' 1000
        \<lparr>transactions = [], transactions_seq = 0, categories = [], budgets = [], recurring = []\<rparr>))) =
   [\<lparr>b_month = ''2024-03'', b_category = ''Food'', b_amount = 1200\<rparr>]"
proof -
  have u: "budgets_unique \<lparr>transactions = [], transactions_seq = 0, categories = [], budgets = [], recurring = []\<rparr>"
    by (simp add: budgets_unique_def)
  show ?thesis
    using set_budget_upsert [OF u,
      of "[(''2024-03'', ''Food'', 1000), (''2024-04'', ''Food'', 900), (''2024-03'', ''Food'', 1200)]"
         "''2024-03''" "''Food''" 1200 1000]
    by blast
qed


end
